theory Spec2Isabelle
  imports Main "HOL-Library.Word"
begin

unbundle bit_operations_syntax

section \<open>Node types of the render graph (vk_node_info.hh)\<close>

text \<open>
  The enumeration \<open>VKNodeType\<close>, one constructor per enumerator, in the order of the
  source.
\<close>

datatype VKNodeType =
    UNUSED
  | BEGIN_QUERY
  | BEGIN_RENDERING
  | BLIT_IMAGE
  | CLEAR_ATTACHMENTS
  | CLEAR_COLOR_IMAGE
  | CLEAR_DEPTH_STENCIL_IMAGE
  | COPY_BUFFER
  | COPY_IMAGE
  | COPY_IMAGE_TO_BUFFER
  | COPY_BUFFER_TO_IMAGE
  | DISPATCH
  | DISPATCH_INDIRECT
  | DRAW
  | DRAW_INDEXED
  | DRAW_INDEXED_INDIRECT
  | DRAW_INDIRECT
  | END_QUERY
  | END_RENDERING
  | FILL_BUFFER
  | RESET_QUERY_POOL
  | SYNCHRONIZATION
  | UPDATE_BUFFER
  | UPDATE_MIPMAPS

text \<open>All enumerators, in declaration order.\<close>

definition all_node_types :: "VKNodeType list" where
  "all_node_types =
     [UNUSED, BEGIN_QUERY, BEGIN_RENDERING, BLIT_IMAGE, CLEAR_ATTACHMENTS,
      CLEAR_COLOR_IMAGE, CLEAR_DEPTH_STENCIL_IMAGE, COPY_BUFFER, COPY_IMAGE,
      COPY_IMAGE_TO_BUFFER, COPY_BUFFER_TO_IMAGE, DISPATCH, DISPATCH_INDIRECT, DRAW,
      DRAW_INDEXED, DRAW_INDEXED_INDIRECT, DRAW_INDIRECT, END_QUERY, END_RENDERING,
      FILL_BUFFER, RESET_QUERY_POOL, SYNCHRONIZATION, UPDATE_BUFFER, UPDATE_MIPMAPS]"

text \<open>
  \<open>operator<<(std::ostream &, VKNodeType)\<close>: the stream is the text written so far, and
  each \<open>case\<close> of the \<open>switch\<close> appends its literal. The switch has no \<open>default\<close>; a
  value with no \<open>case\<close> would leave the stream as it is. The equations keep the order of
  the \<open>case\<close> labels of the source.
\<close>

fun node_type_name :: "VKNodeType \<Rightarrow> string" where
  "node_type_name UNUSED = ''UNUSED''"
| "node_type_name BEGIN_QUERY = ''BEGIN_QUERY''"
| "node_type_name BEGIN_RENDERING = ''BEGIN_RENDERING''"
| "node_type_name END_QUERY = ''END_QUERY''"
| "node_type_name END_RENDERING = ''END_RENDERING''"
| "node_type_name CLEAR_ATTACHMENTS = ''CLEAR_ATTACHMENTS''"
| "node_type_name CLEAR_COLOR_IMAGE = ''CLEAR_COLOR_IMAGE''"
| "node_type_name CLEAR_DEPTH_STENCIL_IMAGE = ''CLEAR_DEPTH_STENCIL_IMAGE''"
| "node_type_name FILL_BUFFER = ''FILL_BUFFER''"
| "node_type_name COPY_BUFFER = ''COPY_BUFFER''"
| "node_type_name COPY_IMAGE = ''COPY_IMAGE''"
| "node_type_name COPY_IMAGE_TO_BUFFER = ''COPY_IMAGE_TO_BUFFER''"
| "node_type_name COPY_BUFFER_TO_IMAGE = ''COPY_BUFFER_TO_IMAGE''"
| "node_type_name BLIT_IMAGE = ''BLIT_IMAGE''"
| "node_type_name DISPATCH = ''DISPATCH''"
| "node_type_name DISPATCH_INDIRECT = ''DISPATCH_INDIRECT''"
| "node_type_name DRAW = ''DRAW''"
| "node_type_name DRAW_INDEXED = ''DRAW_INDEXED''"
| "node_type_name DRAW_INDEXED_INDIRECT = ''DRAW_INDEXED_INDIRECT''"
| "node_type_name DRAW_INDIRECT = ''DRAW_INDIRECT''"
| "node_type_name RESET_QUERY_POOL = ''RESET_QUERY_POOL''"
| "node_type_name SYNCHRONIZATION = ''SYNCHRONIZATION''"
| "node_type_name UPDATE_BUFFER = ''UPDATE_BUFFER''"
| "node_type_name UPDATE_MIPMAPS = ''UPDATE_MIPMAPS''"

definition print_node_type :: "string \<Rightarrow> VKNodeType \<Rightarrow> string" where
  "print_node_type os node_type = os @ node_type_name node_type"

text \<open>
  \<open>ELEM(v, a, b, ...)\<close> of BLI_utildefines.h is \<open>v == a || v == b || ...\<close>.
\<close>

definition node_type_is_within_rendering :: "VKNodeType \<Rightarrow> bool" where
  "node_type_is_within_rendering node_type \<longleftrightarrow>
     node_type = CLEAR_ATTACHMENTS \<or> node_type = DRAW \<or> node_type = DRAW_INDEXED \<or>
     node_type = DRAW_INDEXED_INDIRECT \<or> node_type = DRAW_INDIRECT"

definition node_type_is_rendering :: "VKNodeType \<Rightarrow> bool" where
  "node_type_is_rendering node_type \<longleftrightarrow>
     (node_type = BEGIN_RENDERING \<or> node_type = END_RENDERING) \<or>
     node_type_is_within_rendering node_type"

section \<open>Node info, links and the resource state tracker\<close>

text \<open>
  Modelled from the spec: \<open>VKResourceType\<close>, \<open>VKResourceStateTracker\<close> and
  \<open>VKRenderGraphNodeLinks\<close> are declared in headers that are not among the sources, and
  \<open>VKNodeInfo::build_links\<close> is pure virtual with no implementation among them. The
  definitions of this section follow the spec: a resource category is buffer, image
  or other; a dependency link is (resource id, access kind, resource category); a
  resource state entry is the pipeline stage, the access mask and, for images, the
  layout of the last access.
\<close>

datatype ResourceCategory = Buffer | Image | Other

datatype AccessKind = Read | Write

datatype FatalError = OrderingViolation | UndeclaredResourceCategory

type_synonym ResourceId = nat

type_synonym VkFlags = "32 word"

record Link =
  link_resource :: ResourceId
  link_access_kind :: AccessKind
  link_category :: ResourceCategory

record StateEntry =
  entry_stage :: VkFlags
  entry_access :: VkFlags
  entry_layout :: "VkFlags option"

type_synonym VKResourceStateTracker = "ResourceId \<rightharpoonup> StateEntry"

type_synonym VKRenderGraphNodeLinks = "Link list"

text \<open>
  Modelled from the spec: one resource access declared by a create-info value, the
  part of the create-info that link extraction reads. The layout is present for images.
\<close>

record ResourceAccess =
  acc_resource :: ResourceId
  acc_kind :: AccessKind
  acc_category :: ResourceCategory
  acc_mask :: VkFlags
  acc_layout :: "VkFlags option"

text \<open>
  The static members of \<open>VKNodeInfo\<close> (vk_node_info.hh): the node type, the pipeline
  stage and the resource types that are relevant for the node.
\<close>

record VKNodeInfo =
  node_type :: VKNodeType
  pipeline_stage :: VkFlags
  resource_usages :: "ResourceCategory set"

text \<open>
  Modelled from the spec: \<open>record_access(resource_id, stage, access, [layout])\<close> of
  the Resource State Tracker updates or inserts the entry and returns the previous
  entry (\<open>None\<close> on the first access); \<open>current_state\<close> is the non-mutating query.
\<close>

definition record_access ::
  "VKResourceStateTracker \<Rightarrow> ResourceId \<Rightarrow> VkFlags \<Rightarrow> VkFlags \<Rightarrow> VkFlags option \<Rightarrow>
   StateEntry option \<times> VKResourceStateTracker" where
  "record_access resources resource_id stage access layout =
     (resources resource_id,
      resources(resource_id \<mapsto>
        \<lparr>entry_stage = stage, entry_access = access, entry_layout = layout\<rparr>))"

definition current_state :: "VKResourceStateTracker \<Rightarrow> ResourceId \<Rightarrow> StateEntry option" where
  "current_state resources resource_id = resources resource_id"

text \<open>
  Modelled from the spec: the Dependency Link Table is append-only,
  \<open>add(resource_id, access_kind, category)\<close>.
\<close>

definition add_link ::
  "VKRenderGraphNodeLinks \<Rightarrow> ResourceId \<Rightarrow> AccessKind \<Rightarrow> ResourceCategory \<Rightarrow>
   VKRenderGraphNodeLinks" where
  "add_link node_links resource_id kind category =
     node_links @
       [\<lparr>link_resource = resource_id, link_access_kind = kind, link_category = category\<rparr>]"

text \<open>
  Modelled from the spec: \<open>VKNodeInfo::build_links\<close> (extract links), which is pure
  virtual in vk_node_info.hh. It goes through the accesses the create-info declares, in
  order; each is recorded as a link and the tracker entry of its resource is set to this
  node's access, at the pipeline stage of the node info. A resource category outside the
  set the node info declares is a construction-time programming error, fatal by the
  spec's error taxonomy, and extraction stops there.
\<close>

fun build_links ::
  "VKNodeInfo \<Rightarrow> VKResourceStateTracker \<times> VKRenderGraphNodeLinks \<Rightarrow> ResourceAccess list \<Rightarrow>
   FatalError + VKResourceStateTracker \<times> VKRenderGraphNodeLinks" where
  "build_links info (resources, node_links) [] = Inr (resources, node_links)"
| "build_links info (resources, node_links) (a # create_info) =
     (if acc_category a \<notin> resource_usages info then Inl UndeclaredResourceCategory
      else build_links info
             (snd (record_access resources (acc_resource a) (pipeline_stage info)
                     (acc_mask a) (acc_layout a)),
              add_link node_links (acc_resource a) (acc_kind a) (acc_category a))
             create_info)"

text \<open>The link and the state entry that a node info derives from one declared access.\<close>

definition link_of :: "ResourceAccess \<Rightarrow> Link" where
  "link_of a =
     \<lparr>link_resource = acc_resource a, link_access_kind = acc_kind a,
      link_category = acc_category a\<rparr>"

definition entry_of :: "VKNodeInfo \<Rightarrow> ResourceAccess \<Rightarrow> StateEntry" where
  "entry_of info a =
     \<lparr>entry_stage = pipeline_stage info, entry_access = acc_mask a,
      entry_layout = acc_layout a\<rparr>"

section \<open>Rendering-scope state machine\<close>

text \<open>
  Modelled from the spec: the rendering-scope state machine is part of the render
  graph's command emission, which is not among the sources; only the predicate
  \<open>node_type_is_within_rendering\<close> is. The spec gives two states and two transitions:
  a begin-rendering node moves outside to inside, an end-rendering node moves inside to
  outside. A within-rendering node is valid inside and a fatal ordering violation
  outside. A node that is neither leaves the state as it is. The spec gives no
  transition for a begin-rendering node inside or an end-rendering node outside: there
  the model gives \<open>None\<close>.
\<close>

datatype RenderingScope = OutsideRendering | InsideRendering

definition emit_node ::
  "RenderingScope \<Rightarrow> VKNodeType \<Rightarrow> (FatalError + RenderingScope) option" where
  "emit_node scope t =
     (if t = BEGIN_RENDERING then
        (if scope = OutsideRendering then Some (Inr InsideRendering) else None)
      else if t = END_RENDERING then
        (if scope = InsideRendering then Some (Inr OutsideRendering) else None)
      else if node_type_is_within_rendering t then
        (if scope = InsideRendering then Some (Inr InsideRendering)
         else Some (Inl OrderingViolation))
      else Some (Inr scope))"

text \<open>
  Emission of a node sequence, in order; it stops at the first node that is fatal or
  has no transition.
\<close>

fun emit_nodes ::
  "RenderingScope \<Rightarrow> VKNodeType list \<Rightarrow> (FatalError + RenderingScope) option" where
  "emit_nodes scope [] = Some (Inr scope)"
| "emit_nodes scope (t # ts) =
     (case emit_node scope t of
        Some (Inr scope') \<Rightarrow> emit_nodes scope' ts
      | r \<Rightarrow> r)"

section \<open>Outliner: the library tree element (tree_element_id_library.cc)\<close>

text \<open>
  The fields of \<open>Library\<close> that the tree element reads: \<open>library.runtime->tag\<close>,
  \<open>library.id.tag\<close> and \<open>library.filepath\<close>. The declarations of DNA_ID.h are not among
  the sources, so the widths of the two tag fields are type parameters and the flags
  \<open>LIBRARY_TAG_RESYNC_REQUIRED\<close> and \<open>ID_TAG_MISSING\<close> are parameters of the function,
  as is the translation macro \<open>RPT_\<close> of BLT_translation.hh.
\<close>

record (overloaded) ('a, 'b) Library =
  runtime_tag :: "'a word"
  id_tag :: "'b word"
  filepath :: string

text \<open>
  \<open>TreeElementIDLibrary::get_warning\<close>. The method is \<open>const\<close> and only reads the
  library, so the model returns the warning and no new state. The empty
  \<open>StringRefNull\<close> is the empty string.
\<close>

definition get_warning ::
  "(string \<Rightarrow> string) \<Rightarrow> 'a::len word \<Rightarrow> 'b::len word \<Rightarrow> ('a, 'b) Library \<Rightarrow> string" where
  "get_warning RPT LIBRARY_TAG_RESYNC_REQUIRED ID_TAG_MISSING library =
     (if runtime_tag library AND LIBRARY_TAG_RESYNC_REQUIRED \<noteq> 0 then
        RPT (''Contains linked library overrides that need to be resynced, updating the library is '' @
             ''recommended'')
      else if id_tag library AND ID_TAG_MISSING \<noteq> 0 then RPT ''Missing library''
      else [])"

section \<open>Generic array manipulation (BLI array utilities)\<close>

text \<open>
  The functions take the array as \<open>void *\<close> with its element count (\<open>uint\<close>, 32 bits)
  and its element size in bytes (\<open>size_t\<close>, 64 bits). The array is the list of its
  bytes, and a pointer into it is its byte offset from the start of the array.
  A memory access that leaves the array has no defined behaviour in C++: the memory
  operations below return \<open>None\<close> there, and so does the function that performs it.
\<close>

type_synonym byte = "8 word"

type_synonym uint = "32 word"

type_synonym size_t = "64 word"

text \<open>Reading \<open>n\<close> bytes at an offset (the source of a \<open>memcpy\<close>).\<close>

definition mem_read :: "byte list \<Rightarrow> nat \<Rightarrow> nat \<Rightarrow> byte list option" where
  "mem_read mem off n =
     (if off + n \<le> length mem then Some (take n (drop off mem)) else None)"

text \<open>Writing bytes at an offset (the destination of a \<open>memcpy\<close>).\<close>

definition mem_write :: "byte list \<Rightarrow> nat \<Rightarrow> byte list \<Rightarrow> byte list option" where
  "mem_write mem off bs =
     (if off + length bs \<le> length mem
      then Some (take off mem @ bs @ drop (off + length bs) mem) else None)"

text \<open>
  \<open>memcpy(&arr[dst], &arr[src], n)\<close> inside one array; \<open>memcpy\<close> is undefined where the
  two ranges overlap.
\<close>

definition memcpy_within :: "byte list \<Rightarrow> nat \<Rightarrow> nat \<Rightarrow> nat \<Rightarrow> byte list option" where
  "memcpy_within mem dst src n =
     (if n = 0 \<or> dst + n \<le> src \<or> src + n \<le> dst
      then Option.bind (mem_read mem src n) (mem_write mem dst) else None)"

text \<open>\<open>memcmp(arr + off, p, n) == 0\<close>: the \<open>n\<close> bytes at the offset equal the first \<open>n\<close> of \<open>p\<close>.\<close>

definition memcmp_eq :: "byte list \<Rightarrow> nat \<Rightarrow> byte list \<Rightarrow> nat \<Rightarrow> bool option" where
  "memcmp_eq mem off p n =
     (if n \<le> length p then map_option (\<lambda>bs. bs = take n p) (mem_read mem off n) else None)"

text \<open>Element \<open>i\<close> of an array of elements of \<open>stride\<close> bytes.\<close>

definition array_elem :: "byte list \<Rightarrow> nat \<Rightarrow> nat \<Rightarrow> byte list" where
  "array_elem arr stride i = take stride (drop (i * stride) arr)"

text \<open>
  \<open>_bli_array_reverse\<close>. The offsets \<open>i\<close> and \<open>i_end\<close>, the truncated stride
  \<open>arr_stride_uint = uint(arr_stride)\<close> and \<open>arr_half_stride\<close> are \<open>uint\<close> and wrap
  around; each \<open>memcpy\<close> copies \<open>arr_stride\<close> bytes. The loop is a partial function: its
  result is \<open>None\<close> where it does not return or an access leaves the array.
\<close>

partial_function (option) reverse_loop ::
  "byte list \<Rightarrow> size_t \<Rightarrow> uint \<Rightarrow> uint \<Rightarrow> uint \<Rightarrow> uint \<Rightarrow> byte list option" where
  "reverse_loop arr arr_stride arr_stride_uint arr_half_stride i i_end =
     (if i < arr_half_stride then
        Option.bind (mem_read arr (unat i) (unat arr_stride)) (\<lambda>buf.
        Option.bind (memcpy_within arr (unat i) (unat i_end) (unat arr_stride)) (\<lambda>arr1.
        Option.bind (mem_write arr1 (unat i_end) buf) (\<lambda>arr2.
          reverse_loop arr2 arr_stride arr_stride_uint arr_half_stride
            (i + arr_stride_uint) (i_end - arr_stride_uint))))
      else Some arr)"

declare reverse_loop.simps [code]

definition bli_array_reverse :: "byte list \<Rightarrow> uint \<Rightarrow> size_t \<Rightarrow> byte list option" where
  "bli_array_reverse arr arr_len arr_stride =
     (let arr_stride_uint = (ucast arr_stride :: uint);
          arr_half_stride = (arr_len div 2) * arr_stride_uint
      in reverse_loop arr arr_stride arr_stride_uint arr_half_stride
           0 ((arr_len - 1) * arr_stride_uint))"

text \<open>
  \<open>_bli_array_findindex\<close>. The result is a C++ \<open>int\<close>: \<open>int(i)\<close> is the two's complement
  reading \<open>sint i\<close> of the \<open>uint\<close> index. \<open>arr_step\<close> is a pointer, advanced by
  \<open>arr_stride\<close>.
\<close>

function findindex_loop ::
  "byte list \<Rightarrow> uint \<Rightarrow> size_t \<Rightarrow> byte list \<Rightarrow> uint \<Rightarrow> size_t \<Rightarrow> int option" where
  "findindex_loop arr arr_len arr_stride p i arr_step =
     (if i < arr_len then
        (case memcmp_eq arr (unat arr_step) p (unat arr_stride) of
           None \<Rightarrow> None
         | Some True \<Rightarrow> Some (sint i)
         | Some False \<Rightarrow> findindex_loop arr arr_len arr_stride p (i + 1) (arr_step + arr_stride))
      else Some (- 1))"
  by pat_completeness auto
termination
proof (relation "measure (\<lambda>(arr, arr_len, arr_stride, p, i, arr_step). unat arr_len - unat i)")
  show "wf (measure (\<lambda>(arr, arr_len, arr_stride, p, i, arr_step). unat arr_len - unat i))"
    by simp
next
  fix arr :: "byte list" and arr_len :: uint and arr_stride :: size_t
    and p :: "byte list" and i :: uint and arr_step :: size_t and x2 :: bool
  assume "i < arr_len"
  then have "unat i < unat arr_len"
    by (simp add: word_less_nat_alt)
  moreover have "unat arr_len < 2 ^ 32"
    using unsigned_less [of arr_len] by simp
  ultimately have "unat i + 1 < 2 ^ 32"
    by simp
  then have "unat (i + 1) = Suc (unat i)"
    by (simp add: unat_word_ariths)
  with \<open>unat i < unat arr_len\<close>
  show "((arr, arr_len, arr_stride, p, i + 1, arr_step + arr_stride),
         (arr, arr_len, arr_stride, p, i, arr_step))
        \<in> measure (\<lambda>(arr, arr_len, arr_stride, p, i, arr_step). unat arr_len - unat i)"
    by simp
qed

definition bli_array_findindex ::
  "byte list \<Rightarrow> uint \<Rightarrow> size_t \<Rightarrow> byte list \<Rightarrow> int option" where
  "bli_array_findindex arr arr_len arr_stride p =
     findindex_loop arr arr_len arr_stride p 0 0"

text \<open>
  \<open>_bli_array_rfindindex\<close>. \<open>arr_step\<close> starts at \<open>arr + (arr_stride * arr_len)\<close>, a
  \<open>size_t\<close> product. The loop \<open>for (uint i = arr_len; i-- != 0;)\<close> tests \<open>i\<close>, then
  decrements it before the body.
\<close>

function rfindindex_loop ::
  "byte list \<Rightarrow> size_t \<Rightarrow> byte list \<Rightarrow> uint \<Rightarrow> size_t \<Rightarrow> int option" where
  "rfindindex_loop arr arr_stride p i arr_step =
     (if i \<noteq> 0 then
        (case memcmp_eq arr (unat (arr_step - arr_stride)) p (unat arr_stride) of
           None \<Rightarrow> None
         | Some True \<Rightarrow> Some (sint (i - 1))
         | Some False \<Rightarrow> rfindindex_loop arr arr_stride p (i - 1) (arr_step - arr_stride))
      else Some (- 1))"
  by pat_completeness auto
termination
proof (relation "measure (\<lambda>(arr, arr_stride, p, i, arr_step). unat i)")
  show "wf (measure (\<lambda>(arr, arr_stride, p, i, arr_step). unat i))"
    by simp
next
  fix arr :: "byte list" and arr_stride :: size_t and p :: "byte list" and i :: uint
    and arr_step :: size_t and x2 :: bool
  assume "i \<noteq> 0"
  then have "unat (i - 1) < unat i"
    by (simp add: unat_minus_one unat_gt_0)
  then show "((arr, arr_stride, p, i - 1, arr_step - arr_stride),
              (arr, arr_stride, p, i, arr_step))
             \<in> measure (\<lambda>(arr, arr_stride, p, i, arr_step). unat i)"
    by simp
qed

definition bli_array_rfindindex ::
  "byte list \<Rightarrow> uint \<Rightarrow> size_t \<Rightarrow> byte list \<Rightarrow> int option" where
  "bli_array_rfindindex arr arr_len arr_stride p =
     rfindindex_loop arr arr_stride p arr_len (arr_stride * ucast arr_len)"

section \<open>Properties of the node types\<close>

lemma all_node_types_complete: "set all_node_types = UNIV"
proof -
  have "t \<in> set all_node_types" for t
    by (cases t) (simp_all add: all_node_types_def)
  then show ?thesis by blast
qed

text \<open>
  C3. The predicate "is within an active rendering scope" holds for CLEAR_ATTACHMENTS,
  DRAW, DRAW_INDEXED, DRAW_INDEXED_INDIRECT and DRAW_INDIRECT, and for no other
  enumerator: the enumerators that satisfy it are exactly these five, and the other
  nineteen are listed as the ones that do not.
\<close>

theorem within_rendering_exact:
  "(node_type_is_within_rendering T \<longleftrightarrow>
      T \<in> {CLEAR_ATTACHMENTS, DRAW, DRAW_INDEXED, DRAW_INDEXED_INDIRECT, DRAW_INDIRECT}) \<and>
   filter node_type_is_within_rendering all_node_types =
     [CLEAR_ATTACHMENTS, DRAW, DRAW_INDEXED, DRAW_INDEXED_INDIRECT, DRAW_INDIRECT] \<and>
   filter (\<lambda>t. \<not> node_type_is_within_rendering t) all_node_types =
     [UNUSED, BEGIN_QUERY, BEGIN_RENDERING, BLIT_IMAGE, CLEAR_COLOR_IMAGE,
      CLEAR_DEPTH_STENCIL_IMAGE, COPY_BUFFER, COPY_IMAGE, COPY_IMAGE_TO_BUFFER,
      COPY_BUFFER_TO_IMAGE, DISPATCH, DISPATCH_INDIRECT, END_QUERY, END_RENDERING,
      FILL_BUFFER, RESET_QUERY_POOL, SYNCHRONIZATION, UPDATE_BUFFER, UPDATE_MIPMAPS]"
  by (simp add: node_type_is_within_rendering_def all_node_types_def)

text \<open>
  C4. The predicate "is a rendering-scope boundary or within one" holds exactly for
  BEGIN_RENDERING, END_RENDERING and the enumerators of the within-rendering predicate:
  it is the within-rendering set extended by the two boundary tags, seven enumerators
  in all.
\<close>

theorem is_rendering_exact:
  "(node_type_is_rendering T \<longleftrightarrow>
      T = BEGIN_RENDERING \<or> T = END_RENDERING \<or> node_type_is_within_rendering T) \<and>
   {t. node_type_is_rendering t} =
     {t. node_type_is_within_rendering t} \<union> {BEGIN_RENDERING, END_RENDERING} \<and>
   filter node_type_is_rendering all_node_types =
     [BEGIN_RENDERING, CLEAR_ATTACHMENTS, DRAW, DRAW_INDEXED, DRAW_INDEXED_INDIRECT,
      DRAW_INDIRECT, END_RENDERING]"
proof (intro conjI)
  show "node_type_is_rendering T \<longleftrightarrow>
      T = BEGIN_RENDERING \<or> T = END_RENDERING \<or> node_type_is_within_rendering T"
    by (simp add: node_type_is_rendering_def)
  show "{t. node_type_is_rendering t} =
     {t. node_type_is_within_rendering t} \<union> {BEGIN_RENDERING, END_RENDERING}"
    by (auto simp add: node_type_is_rendering_def)
  show "filter node_type_is_rendering all_node_types =
     [BEGIN_RENDERING, CLEAR_ATTACHMENTS, DRAW, DRAW_INDEXED, DRAW_INDEXED_INDIRECT,
      DRAW_INDIRECT, END_RENDERING]"
    by (simp add: node_type_is_rendering_def node_type_is_within_rendering_def
        all_node_types_def)
qed

text \<open>
  C7. The textual rendering of the node types is exhaustive and injective: every
  enumerator, UNUSED included, is written as a non-empty name, the names of the
  twenty-four enumerators are pairwise distinct, and what the operator appends to the
  stream is that name.
\<close>

theorem node_type_name_exhaustive_injective:
  "inj node_type_name \<and>
   distinct (map node_type_name all_node_types) \<and>
   length all_node_types = 24 \<and>
   set all_node_types = UNIV \<and>
   node_type_name T \<noteq> [] \<and>
   print_node_type os T = os @ node_type_name T \<and>
   node_type_name UNUSED = ''UNUSED''"
proof (intro conjI)
  show d: "distinct (map node_type_name all_node_types)"
    by (simp add: all_node_types_def)
  have "inj_on node_type_name (set all_node_types)"
    using d by (simp add: distinct_map)
  then show "inj node_type_name"
    by (simp add: all_node_types_complete)
  show "length all_node_types = 24"
    by (simp add: all_node_types_def)
  show "set all_node_types = UNIV"
    by (rule all_node_types_complete)
  show "node_type_name T \<noteq> []"
    by (cases T) simp_all
  show "print_node_type os T = os @ node_type_name T"
    by (simp add: print_node_type_def)
  show "node_type_name UNUSED = ''UNUSED''"
    by simp
qed

section \<open>Link extraction and the resource state tracker\<close>

lemma build_links_Inr:
  "build_links info (resources, node_links) create_info = Inr (resources', node_links') \<Longrightarrow>
     node_links' = node_links @ map link_of create_info \<and>
     (\<forall>a \<in> set create_info. acc_category a \<in> resource_usages info) \<and>
     resources' r =
       (case filter (\<lambda>a. acc_resource a = r) create_info of
          [] \<Rightarrow> resources r
        | b # bs \<Rightarrow> Some (entry_of info (last (b # bs))))"
proof (induction create_info arbitrary: resources node_links)
  case Nil
  then show ?case by simp
next
  case (Cons a create_info)
  from Cons.prems have cat: "acc_category a \<in> resource_usages info"
    by (auto split: if_splits)
  let ?res = "snd (record_access resources (acc_resource a) (pipeline_stage info)
                     (acc_mask a) (acc_layout a))"
  let ?links = "add_link node_links (acc_resource a) (acc_kind a) (acc_category a)"
  from Cons.prems cat
  have step: "build_links info (?res, ?links) create_info = Inr (resources', node_links')"
    by simp
  note ih = Cons.IH [OF step]
  have l: "?links = node_links @ [link_of a]"
    by (simp add: add_link_def link_of_def)
  have r: "?res r = (if acc_resource a = r then Some (entry_of info a) else resources r)"
    by (simp add: record_access_def entry_of_def)
  show ?case
    using ih cat l r by (auto split: list.splits)
qed

lemma build_links_total:
  "(\<forall>a \<in> set create_info. acc_category a \<in> resource_usages info) \<Longrightarrow>
   \<exists>out. build_links info (resources, node_links) create_info = Inr out"
  by (induction create_info arbitrary: resources node_links) auto

text \<open>
  C5. Every link that link extraction records for a node info has a resource category
  of the set the node info declares: when \<open>build_links\<close> returns, the link table is the
  one it was given followed by one link per declared access, in order, and the category
  of each of them belongs to \<open>resource_usages\<close>. (Where a category lies outside the set,
  extraction is fatal and returns no link table.)
\<close>

theorem build_links_categories_declared:
  assumes "build_links info (resources, node_links) create_info = Inr (resources', node_links')"
  shows "node_links' = node_links @ map link_of create_info \<and>
         (\<forall>l \<in> set (map link_of create_info). link_category l \<in> resource_usages info)"
  using build_links_Inr [OF assms] by (simp add: link_of_def)

text \<open>
  C1. Last writer wins, in extraction order: after two link extractions in creation
  order, the tracker's entry for a resource that the second one touches is exactly the
  access the second one declares for it (the pipeline stage of its node info, the access
  mask and the layout; the last declaration, should it declare the resource more than
  once), whatever the first extraction declared and whatever the tracker held before.
\<close>

theorem tracker_last_writer_wins:
  assumes "build_links info1 (resources0, links1) create_info1 = Inr (resources1, links1')"
    and "build_links info2 (resources1, links2) create_info2 = Inr (resources2, links2')"
    and "filter (\<lambda>a. acc_resource a = r) create_info2 \<noteq> []"
  shows "current_state resources2 r =
           (let a = last (filter (\<lambda>a. acc_resource a = r) create_info2)
            in Some \<lparr>entry_stage = pipeline_stage info2, entry_access = acc_mask a,
                     entry_layout = acc_layout a\<rparr>)"
  using build_links_Inr [OF assms(2), of r] assms(3)
  by (simp add: current_state_def entry_of_def Let_def split: list.splits)

theorem build_links_categories_declared_witness:
  "build_links \<lparr>node_type = COPY_BUFFER, pipeline_stage = 0x1000, resource_usages = {Buffer}\<rparr>
     (Map.empty, [])
     [\<lparr>acc_resource = 1, acc_kind = Read, acc_category = Buffer, acc_mask = 0x800,
        acc_layout = None\<rparr>,
      \<lparr>acc_resource = 2, acc_kind = Write, acc_category = Buffer, acc_mask = 0x1000,
        acc_layout = None\<rparr>] =
   Inr ([1 \<mapsto> \<lparr>entry_stage = 0x1000, entry_access = 0x800, entry_layout = None\<rparr>,
         2 \<mapsto> \<lparr>entry_stage = 0x1000, entry_access = 0x1000, entry_layout = None\<rparr>],
        [\<lparr>link_resource = 1, link_access_kind = Read, link_category = Buffer\<rparr>,
         \<lparr>link_resource = 2, link_access_kind = Write, link_category = Buffer\<rparr>]) \<and>
   link_category ` set
        [\<lparr>link_resource = 1, link_access_kind = Read, link_category = Buffer\<rparr>,
         \<lparr>link_resource = 2, link_access_kind = Write, link_category = Buffer\<rparr>]
     \<subseteq> {Buffer}"
proof -
  let ?info = "\<lparr>node_type = COPY_BUFFER, pipeline_stage = 0x1000, resource_usages = {Buffer}\<rparr>"
  let ?ci = "[\<lparr>acc_resource = 1, acc_kind = Read, acc_category = Buffer, acc_mask = 0x800,
        acc_layout = None\<rparr>,
      \<lparr>acc_resource = 2, acc_kind = Write, acc_category = Buffer, acc_mask = 0x1000,
        acc_layout = None\<rparr>]"
  have h: "build_links ?info (Map.empty, []) ?ci =
   Inr ([1 \<mapsto> \<lparr>entry_stage = 0x1000, entry_access = 0x800, entry_layout = None\<rparr>,
         2 \<mapsto> \<lparr>entry_stage = 0x1000, entry_access = 0x1000, entry_layout = None\<rparr>],
        [\<lparr>link_resource = 1, link_access_kind = Read, link_category = Buffer\<rparr>,
         \<lparr>link_resource = 2, link_access_kind = Write, link_category = Buffer\<rparr>])"
    by (simp add: record_access_def add_link_def)
  from build_links_categories_declared [OF h] h show ?thesis
    by (simp add: link_of_def)
qed

theorem tracker_last_writer_wins_witness:
  "build_links \<lparr>node_type = FILL_BUFFER, pipeline_stage = 0x1000, resource_usages = {Buffer}\<rparr>
     (Map.empty, [])
     [\<lparr>acc_resource = 7, acc_kind = Write, acc_category = Buffer, acc_mask = 0x1000,
        acc_layout = None\<rparr>] =
   Inr ([7 \<mapsto> \<lparr>entry_stage = 0x1000, entry_access = 0x1000, entry_layout = None\<rparr>],
        [\<lparr>link_resource = 7, link_access_kind = Write, link_category = Buffer\<rparr>]) \<and>
   build_links \<lparr>node_type = DISPATCH, pipeline_stage = 0x800, resource_usages = {Buffer, Image}\<rparr>
     ([7 \<mapsto> \<lparr>entry_stage = 0x1000, entry_access = 0x1000, entry_layout = None\<rparr>], [])
     [\<lparr>acc_resource = 7, acc_kind = Read, acc_category = Buffer, acc_mask = 0x20,
        acc_layout = None\<rparr>] =
   Inr ([7 \<mapsto> \<lparr>entry_stage = 0x800, entry_access = 0x20, entry_layout = None\<rparr>],
        [\<lparr>link_resource = 7, link_access_kind = Read, link_category = Buffer\<rparr>]) \<and>
   current_state [7 \<mapsto> \<lparr>entry_stage = 0x800, entry_access = 0x20, entry_layout = None\<rparr>] 7 =
     Some \<lparr>entry_stage = 0x800, entry_access = 0x20, entry_layout = None\<rparr>"
proof -
  let ?info1 = "\<lparr>node_type = FILL_BUFFER, pipeline_stage = 0x1000, resource_usages = {Buffer}\<rparr>"
  let ?info2 = "\<lparr>node_type = DISPATCH, pipeline_stage = 0x800, resource_usages = {Buffer, Image}\<rparr>"
  let ?ci1 = "[\<lparr>acc_resource = 7, acc_kind = Write, acc_category = Buffer, acc_mask = 0x1000,
        acc_layout = None\<rparr>]"
  let ?ci2 = "[\<lparr>acc_resource = 7, acc_kind = Read, acc_category = Buffer, acc_mask = 0x20,
        acc_layout = None\<rparr>]"
  let ?r1 = "[7 \<mapsto> \<lparr>entry_stage = 0x1000, entry_access = 0x1000, entry_layout = None\<rparr>]"
  let ?r2 = "[7 \<mapsto> \<lparr>entry_stage = 0x800, entry_access = 0x20, entry_layout = None\<rparr>]"
  have h1: "build_links ?info1 (Map.empty, []) ?ci1 =
      Inr (?r1, [\<lparr>link_resource = 7, link_access_kind = Write, link_category = Buffer\<rparr>])"
    by (simp add: record_access_def add_link_def)
  have h2: "build_links ?info2 (?r1, []) ?ci2 =
      Inr (?r2, [\<lparr>link_resource = 7, link_access_kind = Read, link_category = Buffer\<rparr>])"
    by (simp add: record_access_def add_link_def)
  have h3: "filter (\<lambda>a. acc_resource a = 7) ?ci2 \<noteq> []"
    by simp
  from tracker_last_writer_wins [OF h1 h2 h3] h1 h2 show ?thesis
    by (simp add: Let_def)
qed

section \<open>Rendering scope\<close>

lemma emit_nodes_append:
  "emit_nodes scope ns = Some (Inr scope') \<Longrightarrow> emit_nodes scope (ns @ ms) = emit_nodes scope' ms"
proof (induction ns arbitrary: scope)
  case Nil
  then show ?case by simp
next
  case (Cons n ns)
  then show ?case
    by (cases "emit_node scope n") (auto split: sum.splits)
qed

lemma emit_within_outside:
  "node_type_is_within_rendering t \<Longrightarrow> emit_node OutsideRendering t = Some (Inl OrderingViolation)"
  by (auto simp add: emit_node_def node_type_is_within_rendering_def)


text \<open>
  C2. The rendering scope has exactly two states, outside and inside. A begin-rendering
  node moves outside to inside and an end-rendering node moves inside to outside. For
  every node sequence that leaves the scope outside, emitting a within-rendering node
  next is a fatal ordering violation (the error result, not a next state) whatever
  follows; in particular a DRAW that comes first, or after a sequence in which every
  begin-rendering has been matched, is fatal at its emission.
\<close>

theorem rendering_scope_state_machine:
  "(UNIV :: RenderingScope set) = {OutsideRendering, InsideRendering} \<and>
   OutsideRendering \<noteq> InsideRendering \<and>
   emit_node OutsideRendering BEGIN_RENDERING = Some (Inr InsideRendering) \<and>
   emit_node InsideRendering END_RENDERING = Some (Inr OutsideRendering) \<and>
   (node_type_is_within_rendering t \<longrightarrow>
      emit_node OutsideRendering t = Some (Inl OrderingViolation)) \<and>
   (node_type_is_within_rendering t \<and> emit_nodes scope ns = Some (Inr OutsideRendering) \<longrightarrow>
      emit_nodes scope (ns @ t # rest) = Some (Inl OrderingViolation)) \<and>
   emit_nodes OutsideRendering (DRAW # rest) = Some (Inl OrderingViolation) \<and>
   (emit_nodes OutsideRendering ns = Some (Inr OutsideRendering) \<longrightarrow>
      emit_nodes OutsideRendering (ns @ DRAW # rest) = Some (Inl OrderingViolation))"
proof (intro conjI impI)
  show "(UNIV :: RenderingScope set) = {OutsideRendering, InsideRendering}"
    using RenderingScope.exhaust by blast
  show "OutsideRendering \<noteq> InsideRendering"
    by simp
  show "emit_node OutsideRendering BEGIN_RENDERING = Some (Inr InsideRendering)"
    by (simp add: emit_node_def)
  show "emit_node InsideRendering END_RENDERING = Some (Inr OutsideRendering)"
    by (simp add: emit_node_def)
  show "emit_node OutsideRendering t = Some (Inl OrderingViolation)"
    if "node_type_is_within_rendering t"
    using that by (rule emit_within_outside)
  show "emit_nodes scope (ns @ t # rest) = Some (Inl OrderingViolation)"
    if "node_type_is_within_rendering t \<and> emit_nodes scope ns = Some (Inr OutsideRendering)"
    using that by (simp add: emit_nodes_append emit_within_outside)
  have draw: "node_type_is_within_rendering DRAW"
    by (simp add: node_type_is_within_rendering_def)
  show "emit_nodes OutsideRendering (DRAW # rest) = Some (Inl OrderingViolation)"
    by (simp add: emit_within_outside [OF draw])
  show "emit_nodes OutsideRendering (ns @ DRAW # rest) = Some (Inl OrderingViolation)"
    if "emit_nodes OutsideRendering ns = Some (Inr OutsideRendering)"
    using that by (simp add: emit_nodes_append emit_within_outside [OF draw])
qed

theorem rendering_scope_state_machine_witness:
  "node_type_is_within_rendering DRAW_INDEXED \<and>
   emit_nodes OutsideRendering [BEGIN_RENDERING, DRAW, END_RENDERING] =
     Some (Inr OutsideRendering) \<and>
   emit_node OutsideRendering DRAW_INDEXED = Some (Inl OrderingViolation) \<and>
   emit_nodes OutsideRendering
     ([BEGIN_RENDERING, DRAW, END_RENDERING] @ DRAW_INDEXED # [COPY_BUFFER]) =
     Some (Inl OrderingViolation) \<and>
   emit_nodes OutsideRendering
     ([BEGIN_RENDERING, DRAW, END_RENDERING] @ DRAW # [COPY_BUFFER]) =
     Some (Inl OrderingViolation)"
proof -
  have w: "node_type_is_within_rendering DRAW_INDEXED"
    by (simp add: node_type_is_within_rendering_def)
  have d: "node_type_is_within_rendering DRAW"
    by (simp add: node_type_is_within_rendering_def)
  have r: "emit_nodes OutsideRendering [BEGIN_RENDERING, DRAW, END_RENDERING] =
     Some (Inr OutsideRendering)"
    by (simp add: emit_node_def d)
  from rendering_scope_state_machine
         [of DRAW_INDEXED OutsideRendering "[BEGIN_RENDERING, DRAW, END_RENDERING]"
             "[COPY_BUFFER]"]
    w r show ?thesis
    by blast
qed

section \<open>Library warning\<close>

text \<open>
  C10. The resync warning has priority over the missing-library warning: with
  LIBRARY_TAG_RESYNC_REQUIRED set in the runtime tag the result is the
  resync-recommended message, whether ID_TAG_MISSING is set or not; with resync not
  required and ID_TAG_MISSING set it is "Missing library"; otherwise it is the empty
  string. Messages are as \<open>RPT_\<close> renders them; where \<open>RPT_\<close> keeps "Missing library"
  non-empty and apart from the resync message, "Missing library" is returned exactly
  when resync is not required and ID_TAG_MISSING is set. The function returns only the
  warning: the element is not changed.
\<close>

theorem get_warning_priority:
  fixes library :: "('a::len, 'b::len) Library"
  shows
  "(runtime_tag library AND LIBRARY_TAG_RESYNC_REQUIRED \<noteq> 0 \<longrightarrow>
      get_warning RPT LIBRARY_TAG_RESYNC_REQUIRED ID_TAG_MISSING library =
        RPT ''Contains linked library overrides that need to be resynced, updating the library is recommended'') \<and>
   (runtime_tag library AND LIBRARY_TAG_RESYNC_REQUIRED = 0 \<and>
    id_tag library AND ID_TAG_MISSING \<noteq> 0 \<longrightarrow>
      get_warning RPT LIBRARY_TAG_RESYNC_REQUIRED ID_TAG_MISSING library =
        RPT ''Missing library'') \<and>
   (runtime_tag library AND LIBRARY_TAG_RESYNC_REQUIRED = 0 \<and>
    id_tag library AND ID_TAG_MISSING = 0 \<longrightarrow>
      get_warning RPT LIBRARY_TAG_RESYNC_REQUIRED ID_TAG_MISSING library = []) \<and>
   (RPT ''Missing library'' \<noteq> [] \<and>
    RPT ''Missing library'' \<noteq>
      RPT ''Contains linked library overrides that need to be resynced, updating the library is recommended'' \<longrightarrow>
      (get_warning RPT LIBRARY_TAG_RESYNC_REQUIRED ID_TAG_MISSING library =
         RPT ''Missing library'' \<longleftrightarrow>
       runtime_tag library AND LIBRARY_TAG_RESYNC_REQUIRED = 0 \<and>
       id_tag library AND ID_TAG_MISSING \<noteq> 0))"
  by (auto simp add: get_warning_def)

theorem get_warning_priority_witness:
  "get_warning (\<lambda>s. s) (1 :: 16 word) (8 :: 32 word)
     \<lparr>runtime_tag = 1, id_tag = 8, filepath = ''//lib.blend''\<rparr> =
     ''Contains linked library overrides that need to be resynced, updating the library is recommended'' \<and>
   get_warning (\<lambda>s. s) (1 :: 16 word) (8 :: 32 word)
     \<lparr>runtime_tag = 2, id_tag = 12, filepath = ''//lib.blend''\<rparr> = ''Missing library'' \<and>
   get_warning (\<lambda>s. s) (1 :: 16 word) (8 :: 32 word)
     \<lparr>runtime_tag = 2, id_tag = 4, filepath = ''//lib.blend''\<rparr> = []"
  using
    get_warning_priority [of "\<lparr>runtime_tag = 1, id_tag = 8, filepath = ''//lib.blend''\<rparr>"
      "1 :: 16 word" "\<lambda>s. s" "8 :: 32 word"]
    get_warning_priority [of "\<lparr>runtime_tag = 2, id_tag = 12, filepath = ''//lib.blend''\<rparr>"
      "1 :: 16 word" "\<lambda>s. s" "8 :: 32 word"]
    get_warning_priority [of "\<lparr>runtime_tag = 2, id_tag = 4, filepath = ''//lib.blend''\<rparr>"
      "1 :: 16 word" "\<lambda>s. s" "8 :: 32 word"]
  by simp

section \<open>Searching an array\<close>

lemma memcmp_eq_elem:
  assumes "length arr = n * s" "k < n" "length p = s"
  shows "memcmp_eq arr (k * s) p s = Some (array_elem arr s k = p)"
proof -
  have "k * s + s = Suc k * s" by simp
  also have "\<dots> \<le> n * s" using assms(2) by (intro mult_le_mono1) simp
  finally have "k * s + s \<le> length arr" using assms(1) by simp
  then show ?thesis
    using assms(3) by (simp add: memcmp_eq_def mem_read_def array_elem_def)
qed

lemma unat_step_add:
  fixes arr_step arr_stride :: size_t
  assumes "unat arr_step = k * unat arr_stride" "k < n" "n * unat arr_stride < 2 ^ 64"
  shows "unat (arr_step + arr_stride) = Suc k * unat arr_stride"
proof -
  have "Suc k * unat arr_stride \<le> n * unat arr_stride"
    using assms(2) by (intro mult_le_mono1) simp
  then have "unat arr_step + unat arr_stride < 2 ^ 64"
    using assms by simp
  then show ?thesis
    using assms(1) by (simp add: unat_word_ariths)
qed

lemma unat_step_sub:
  fixes arr_step arr_stride :: size_t
  assumes "unat arr_step = Suc k * unat arr_stride"
  shows "unat (arr_step - arr_stride) = k * unat arr_stride"
proof -
  have "unat arr_stride \<le> unat arr_step" using assms by simp
  then have "arr_stride \<le> arr_step" by (simp add: word_le_nat_alt)
  then show ?thesis using assms by (simp add: unat_sub)
qed

lemma uint_index_succ:
  fixes i arr_len :: uint
  assumes "unat i < unat arr_len"
  shows "unat (i + 1) = Suc (unat i)"
proof -
  have "unat arr_len < 2 ^ 32"
    using unsigned_less [of arr_len] by simp
  with assms have "unat i + 1 < 2 ^ 32" by simp
  then show ?thesis by (simp add: unat_word_ariths)
qed

lemma findindex_loop_none:
  assumes "length arr = unat arr_len * unat arr_stride"
    and "length arr < 2 ^ 64"
    and "length p = unat arr_stride"
    and "unat arr_step = unat i * unat arr_stride"
    and "unat i \<le> unat arr_len"
    and "\<forall>j. unat i \<le> j \<and> j < unat arr_len \<longrightarrow> array_elem arr (unat arr_stride) j \<noteq> p"
  shows "findindex_loop arr arr_len arr_stride p i arr_step = Some (- 1)"
  using assms(4-6)
proof (induction "unat arr_len - unat i" arbitrary: i arr_step)
  case 0
  then have "\<not> i < arr_len" by (simp add: word_less_nat_alt)
  then show ?case by (subst findindex_loop.simps) simp
next
  case (Suc d)
  then have lt: "unat i < unat arr_len" by simp
  then have il: "i < arr_len" by (simp add: word_less_nat_alt)
  have s1: "unat (i + 1) = Suc (unat i)" using lt by (rule uint_index_succ)
  have s2: "unat (arr_step + arr_stride) = unat (i + 1) * unat arr_stride"
    using unat_step_add [OF Suc.prems(1) lt] assms(1,2) s1 by simp
  have ne: "array_elem arr (unat arr_stride) (unat i) \<noteq> p"
    using Suc.prems(3) lt by simp
  have cmp: "memcmp_eq arr (unat arr_step) p (unat arr_stride) = Some False"
    using memcmp_eq_elem [OF assms(1) lt assms(3)] ne Suc.prems(1) by simp
  have "findindex_loop arr arr_len arr_stride p (i + 1) (arr_step + arr_stride) = Some (- 1)"
  proof (rule Suc.hyps(1))
    show "d = unat arr_len - unat (i + 1)" using Suc.hyps(2) s1 by simp
    show "unat (arr_step + arr_stride) = unat (i + 1) * unat arr_stride" by (rule s2)
    show "unat (i + 1) \<le> unat arr_len" using lt s1 by simp
    show "\<forall>j. unat (i + 1) \<le> j \<and> j < unat arr_len \<longrightarrow>
              array_elem arr (unat arr_stride) j \<noteq> p"
      using Suc.prems(3) s1 by simp
  qed
  then show ?case
    using il cmp by (subst findindex_loop.simps) simp
qed

lemma findindex_loop_first:
  assumes "length arr = unat arr_len * unat arr_stride"
    and "length arr < 2 ^ 64"
    and "length p = unat arr_stride"
    and "unat arr_step = unat i * unat arr_stride"
    and "unat i \<le> m" and "m < unat arr_len"
    and "array_elem arr (unat arr_stride) m = p"
    and "\<forall>j. unat i \<le> j \<and> j < m \<longrightarrow> array_elem arr (unat arr_stride) j \<noteq> p"
  shows "findindex_loop arr arr_len arr_stride p i arr_step = Some (sint (word_of_nat m :: uint))"
  using assms(4,5,8)
proof (induction "m - unat i" arbitrary: i arr_step)
  case 0
  then have mi: "unat i = m" by simp
  then have im: "word_of_nat m = i" by (simp add: mi [symmetric])
  have lt: "unat i < unat arr_len" using mi assms(6) by simp
  then have il: "i < arr_len" by (simp add: word_less_nat_alt)
  have cmp: "memcmp_eq arr (unat arr_step) p (unat arr_stride) = Some True"
    using memcmp_eq_elem [OF assms(1) lt assms(3)] assms(7) mi "0.prems"(1) by simp
  show ?case
    using il cmp im by (subst findindex_loop.simps) simp
next
  case (Suc d)
  then have lm: "unat i < m" by simp
  then have lt: "unat i < unat arr_len" using assms(6) by simp
  then have il: "i < arr_len" by (simp add: word_less_nat_alt)
  have s1: "unat (i + 1) = Suc (unat i)" using lt by (rule uint_index_succ)
  have s2: "unat (arr_step + arr_stride) = unat (i + 1) * unat arr_stride"
    using unat_step_add [OF Suc.prems(1) lt] assms(1,2) s1 by simp
  have ne: "array_elem arr (unat arr_stride) (unat i) \<noteq> p"
    using Suc.prems(3) lm by simp
  have cmp: "memcmp_eq arr (unat arr_step) p (unat arr_stride) = Some False"
    using memcmp_eq_elem [OF assms(1) lt assms(3)] ne Suc.prems(1) by simp
  have "findindex_loop arr arr_len arr_stride p (i + 1) (arr_step + arr_stride) =
          Some (sint (word_of_nat m :: uint))"
  proof (rule Suc.hyps(1))
    show "d = m - unat (i + 1)" using Suc.hyps(2) s1 by simp
    show "unat (arr_step + arr_stride) = unat (i + 1) * unat arr_stride" by (rule s2)
    show "unat (i + 1) \<le> m" using lm s1 by simp
    show "\<forall>j. unat (i + 1) \<le> j \<and> j < m \<longrightarrow> array_elem arr (unat arr_stride) j \<noteq> p"
      using Suc.prems(3) s1 by simp
  qed
  then show ?case
    using il cmp by (subst findindex_loop.simps) simp
qed


lemma uint_index_pred:
  fixes i :: uint
  assumes "unat i = Suc k"
  shows "unat (i - 1) = k"
proof -
  have "i \<noteq> 0" using assms by (metis unat_0 nat.distinct(1))
  then show ?thesis using assms by (simp add: unat_minus_one)
qed

lemma rfindindex_loop_none:
  assumes "length arr = n * unat arr_stride"
    and "length p = unat arr_stride"
    and "unat arr_step = unat i * unat arr_stride"
    and "unat i \<le> n"
    and "\<forall>j. j < unat i \<longrightarrow> array_elem arr (unat arr_stride) j \<noteq> p"
  shows "rfindindex_loop arr arr_stride p i arr_step = Some (- 1)"
  using assms(3-5)
proof (induction "unat i" arbitrary: i arr_step)
  case 0
  then have "i = 0" by (simp add: unat_eq_0)
  then show ?case by (subst rfindindex_loop.simps) simp
next
  case (Suc k)
  have ui: "unat i = Suc k" using Suc.hyps(2) by simp
  then have nz: "i \<noteq> 0" by (metis unat_0 nat.distinct(1))
  have p1: "unat (i - 1) = k" using ui by (rule uint_index_pred)
  have p2: "unat (arr_step - arr_stride) = k * unat arr_stride"
    using Suc.prems(1) ui by (intro unat_step_sub) simp
  have kn: "k < n" using Suc.prems(2) ui by simp
  have ne: "array_elem arr (unat arr_stride) k \<noteq> p"
    using Suc.prems(3) ui by simp
  have cmp: "memcmp_eq arr (unat (arr_step - arr_stride)) p (unat arr_stride) = Some False"
    using memcmp_eq_elem [OF assms(1) kn assms(2)] ne p2 by simp
  have "rfindindex_loop arr arr_stride p (i - 1) (arr_step - arr_stride) = Some (- 1)"
  proof (rule Suc.hyps(1))
    show "k = unat (i - 1)" using p1 by simp
    show "unat (arr_step - arr_stride) = unat (i - 1) * unat arr_stride" using p1 p2 by simp
    show "unat (i - 1) \<le> n" using p1 kn by simp
    show "\<forall>j. j < unat (i - 1) \<longrightarrow> array_elem arr (unat arr_stride) j \<noteq> p"
      using Suc.prems(3) p1 ui by simp
  qed
  then show ?case
    using nz cmp by (subst rfindindex_loop.simps) simp
qed

lemma rfindindex_loop_last:
  assumes "length arr = n * unat arr_stride"
    and "length p = unat arr_stride"
    and "unat arr_step = unat i * unat arr_stride"
    and "unat i \<le> n"
    and "m < unat i"
    and "array_elem arr (unat arr_stride) m = p"
    and "\<forall>j. m < j \<and> j < unat i \<longrightarrow> array_elem arr (unat arr_stride) j \<noteq> p"
  shows "rfindindex_loop arr arr_stride p i arr_step = Some (sint (word_of_nat m :: uint))"
  using assms(3,4,5,7)
proof (induction "unat i" arbitrary: i arr_step)
  case 0
  then show ?case by simp
next
  case (Suc k)
  have ui: "unat i = Suc k" using Suc.hyps(2) by simp
  then have nz: "i \<noteq> 0" by (metis unat_0 nat.distinct(1))
  have p1: "unat (i - 1) = k" using ui by (rule uint_index_pred)
  have p2: "unat (arr_step - arr_stride) = k * unat arr_stride"
    using Suc.prems(1) ui by (intro unat_step_sub) simp
  have kn: "k < n" using Suc.prems(2) ui by simp
  note cmp0 = memcmp_eq_elem [OF assms(1) kn assms(2)]
  show ?case
  proof (cases "m = k")
    case True
    have "word_of_nat (unat (i - 1)) = i - 1" by simp
    then have im: "word_of_nat m = i - 1" using True by (simp only: p1)
    have cmp: "memcmp_eq arr (unat (arr_step - arr_stride)) p (unat arr_stride) = Some True"
      using cmp0 assms(6) True p2 by simp
    show ?thesis
      using nz cmp im by (subst rfindindex_loop.simps) simp
  next
    case False
    then have mk: "m < k" using Suc.prems(3) ui by simp
    have ne: "array_elem arr (unat arr_stride) k \<noteq> p"
      using Suc.prems(4) ui mk by simp
    have cmp: "memcmp_eq arr (unat (arr_step - arr_stride)) p (unat arr_stride) = Some False"
      using cmp0 ne p2 by simp
    have "rfindindex_loop arr arr_stride p (i - 1) (arr_step - arr_stride) =
            Some (sint (word_of_nat m :: uint))"
    proof (rule Suc.hyps(1))
      show "k = unat (i - 1)" using p1 by simp
      show "unat (arr_step - arr_stride) = unat (i - 1) * unat arr_stride" using p1 p2 by simp
      show "unat (i - 1) \<le> n" using p1 kn by simp
      show "m < unat (i - 1)" using p1 mk by simp
      show "\<forall>j. m < j \<and> j < unat (i - 1) \<longrightarrow> array_elem arr (unat arr_stride) j \<noteq> p"
        using Suc.prems(4) p1 ui by simp
    qed
    then show ?thesis
      using nz cmp by (subst rfindindex_loop.simps) simp
  qed
qed

lemma unat_ucast_uint_size_t:
  fixes x :: uint
  shows "unat (ucast x :: size_t) = unat x"
proof -
  have "unat x < 2 ^ 32" using unsigned_less [of x] by simp
  then have "unat x < 2 ^ 64" by simp
  then show ?thesis
    by (simp add: unsigned_ucast_eq take_bit_nat_eq_self)
qed

lemma rfindindex_start:
  fixes arr_len :: uint and arr_stride :: size_t
  assumes "unat arr_len * unat arr_stride < 2 ^ 64"
  shows "unat (arr_stride * ucast arr_len) = unat arr_len * unat arr_stride"
proof -
  have "unat arr_stride * unat (ucast arr_len :: size_t) < 2 ^ 64"
    using assms by (simp add: unat_ucast_uint_size_t mult.commute)
  then have "unat (arr_stride * ucast arr_len) = unat arr_stride * unat (ucast arr_len :: size_t)"
    by (simp add: unat_mult_lem [where ?'a = 64, simplified])
  then show ?thesis by (simp add: unat_ucast_uint_size_t mult.commute)
qed

lemma sint_index:
  assumes "m < 2 ^ 31"
  shows "sint (word_of_nat m :: uint) = int m"
proof -
  have "word_of_nat m = (word_of_int (int m) :: uint)" by simp
  then have "sint (word_of_nat m :: uint) = (int m + 2 ^ 31) mod 2 ^ 32 - 2 ^ 31"
    by (simp only: int_word_sint) simp
  moreover have "int m < 2 ^ 31"
    using assms by (simp add: of_nat_less_iff [of m "2 ^ 31", where ?'a = int, simplified])
  ultimately show ?thesis by simp
qed

text \<open>
  C8. For an array of \<open>arr_len\<close> elements of \<open>arr_stride\<close> bytes (in a 64-bit address
  space) and a probe value \<open>p\<close> of \<open>arr_stride\<close> bytes, \<open>_bli_array_findindex\<close> returns \<open>-1\<close> when no element is
  byte-for-byte equal to \<open>p\<close>, and otherwise \<open>int(i)\<close> for the smallest index \<open>i\<close> of an
  equal element: the index itself whenever \<open>i < 2^31\<close>, which is every index of an array
  of at most \<open>2^31\<close> elements. \<open>_bli_array_rfindindex\<close> does the same with the largest
  such index.
\<close>

theorem bli_array_findindex_first_last:
  assumes "length arr = unat arr_len * unat arr_stride"
    and "length arr < 2 ^ 64"
    and "length p = unat arr_stride"
  shows
    "((\<forall>j < unat arr_len. array_elem arr (unat arr_stride) j \<noteq> p) \<longrightarrow>
        bli_array_findindex arr arr_len arr_stride p = Some (- 1) \<and>
        bli_array_rfindindex arr arr_len arr_stride p = Some (- 1)) \<and>
     (m < unat arr_len \<and> array_elem arr (unat arr_stride) m = p \<and>
      (\<forall>j < m. array_elem arr (unat arr_stride) j \<noteq> p) \<longrightarrow>
        bli_array_findindex arr arr_len arr_stride p = Some (sint (word_of_nat m :: uint)) \<and>
        (m < 2 ^ 31 \<longrightarrow> bli_array_findindex arr arr_len arr_stride p = Some (int m))) \<and>
     (m < unat arr_len \<and> array_elem arr (unat arr_stride) m = p \<and>
      (\<forall>j. m < j \<and> j < unat arr_len \<longrightarrow> array_elem arr (unat arr_stride) j \<noteq> p) \<longrightarrow>
        bli_array_rfindindex arr arr_len arr_stride p = Some (sint (word_of_nat m :: uint)) \<and>
        (m < 2 ^ 31 \<longrightarrow> bli_array_rfindindex arr arr_len arr_stride p = Some (int m)))"
proof -
  have start: "unat (arr_stride * ucast arr_len) = unat arr_len * unat arr_stride"
    using assms(1,2) by (intro rfindindex_start) simp
  have none_f: "bli_array_findindex arr arr_len arr_stride p = Some (- 1)"
    if "\<forall>j < unat arr_len. array_elem arr (unat arr_stride) j \<noteq> p"
    unfolding bli_array_findindex_def
    using that by (intro findindex_loop_none [OF assms]) simp_all
  have none_r: "bli_array_rfindindex arr arr_len arr_stride p = Some (- 1)"
    if "\<forall>j < unat arr_len. array_elem arr (unat arr_stride) j \<noteq> p"
    unfolding bli_array_rfindindex_def
    using that start by (intro rfindindex_loop_none [OF assms(1,3)]) simp_all
  have first: "bli_array_findindex arr arr_len arr_stride p = Some (sint (word_of_nat m :: uint))"
    if "m < unat arr_len" "array_elem arr (unat arr_stride) m = p"
      "\<forall>j < m. array_elem arr (unat arr_stride) j \<noteq> p"
    unfolding bli_array_findindex_def
    using that by (intro findindex_loop_first [OF assms]) simp_all
  have last: "bli_array_rfindindex arr arr_len arr_stride p = Some (sint (word_of_nat m :: uint))"
    if "m < unat arr_len" "array_elem arr (unat arr_stride) m = p"
      "\<forall>j. m < j \<and> j < unat arr_len \<longrightarrow> array_elem arr (unat arr_stride) j \<noteq> p"
    unfolding bli_array_rfindindex_def
    using that start by (intro rfindindex_loop_last [OF assms(1,3)]) simp_all
  show ?thesis
    using none_f none_r first last by (simp add: sint_index)
qed

theorem bli_array_findindex_first_last_witness:
  "bli_array_findindex [1, 0, 2, 0, 3, 0, 2, 0] 4 2 [2, 0] = Some 1 \<and>
   bli_array_rfindindex [1, 0, 2, 0, 3, 0, 2, 0] 4 2 [2, 0] = Some 3 \<and>
   bli_array_findindex [1, 0, 2, 0, 3, 0, 2, 0] 4 2 [5, 0] = Some (- 1) \<and>
   bli_array_rfindindex [1, 0, 2, 0, 3, 0, 2, 0] 4 2 [5, 0] = Some (- 1)"
proof -
  let ?arr = "[1, 0, 2, 0, 3, 0, 2, 0] :: byte list"
  have a1: "length ?arr = unat (4 :: uint) * unat (2 :: size_t)" by simp
  have a2: "length ?arr < 2 ^ 64" by simp
  have a3: "length [2, 0 :: byte] = unat (2 :: size_t)" by simp
  have a4: "length [5, 0 :: byte] = unat (2 :: size_t)" by simp
  have e: "array_elem ?arr 2 0 = [1, 0]" "array_elem ?arr 2 1 = [2, 0]"
    "array_elem ?arr 2 2 = [3, 0]" "array_elem ?arr 2 3 = [2, 0]"
    by (simp_all add: array_elem_def)
  have c: "j = 0 \<or> j = 1 \<or> j = 2 \<or> j = 3" if "j < 4" for j :: nat
    using that by arith
  have first: "(1 :: nat) < unat (4 :: uint) \<and> array_elem ?arr (unat (2 :: size_t)) 1 = [2, 0] \<and>
      (\<forall>j < 1. array_elem ?arr (unat (2 :: size_t)) j \<noteq> [2, 0])"
    using e by simp
  have last: "(3 :: nat) < unat (4 :: uint) \<and> array_elem ?arr (unat (2 :: size_t)) 3 = [2, 0] \<and>
      (\<forall>j. 3 < j \<and> j < unat (4 :: uint) \<longrightarrow> array_elem ?arr (unat (2 :: size_t)) j \<noteq> [2, 0])"
    using e by auto
  have none: "\<forall>j < unat (4 :: uint). array_elem ?arr (unat (2 :: size_t)) j \<noteq> [5, 0]"
  proof (intro allI impI)
    fix j :: nat
    assume "j < unat (4 :: uint)"
    then have "j < 4" by simp
    from c [OF this] e show "array_elem ?arr (unat (2 :: size_t)) j \<noteq> [5, 0]"
      by auto
  qed
  from bli_array_findindex_first_last [OF a1 a2 a3, of 1] first
  have 1: "bli_array_findindex ?arr 4 2 [2, 0] = Some 1" by simp
  from bli_array_findindex_first_last [OF a1 a2 a3, of 3] last
  have 2: "bli_array_rfindindex ?arr 4 2 [2, 0] = Some 3" by simp
  from bli_array_findindex_first_last [OF a1 a2 a4, of 0] none
  have 3: "bli_array_findindex ?arr 4 2 [5, 0] = Some (- 1) \<and>
           bli_array_rfindindex ?arr 4 2 [5, 0] = Some (- 1)" by blast
  from 1 2 3 show ?thesis by simp
qed


lemma array_elem_byte:
  assumes "j < length arr"
  shows "array_elem arr 1 j = [arr ! j]"
proof -
  have "drop j arr = arr ! j # drop (Suc j) arr"
    using assms by (simp add: Cons_nth_drop_Suc)
  then show ?thesis by (simp add: array_elem_def)
qed

lemma findindex_beyond_int:
  fixes N :: uint
  assumes "unat N = n" and "n < 2 ^ 32 - 1"
  shows "bli_array_findindex (replicate n 0 @ [1]) (N + 1) 1 [1] = Some (sint N)"
proof -
  let ?arr = "replicate n 0 @ [1 :: byte]"
  have n1: "unat (N + 1) = Suc n"
    using assms by (simp add: unat_word_ariths)
  have e: "array_elem ?arr 1 j = [?arr ! j]" if "j \<le> n" for j
    using that by (intro array_elem_byte) simp
  have a1: "length ?arr = unat (N + 1) * unat (1 :: size_t)"
    using n1 by simp
  have a2: "length ?arr < 2 ^ 64"
  proof -
    have "Suc n < 2 ^ 32" using assms(2) by simp
    also have "(2 :: nat) ^ 32 < 2 ^ 64" by simp
    finally show ?thesis by simp
  qed
  have a3: "length [1 :: byte] = unat (1 :: size_t)" by simp
  have "findindex_loop ?arr (N + 1) 1 [1] 0 0 = Some (sint (word_of_nat n :: uint))"
  proof (rule findindex_loop_first [OF a1 a2 a3])
    show "unat (0 :: size_t) = unat (0 :: uint) * unat (1 :: size_t)" by simp
    show "unat (0 :: uint) \<le> n" by simp
    show "n < unat (N + 1)" using n1 by simp
    show "array_elem ?arr (unat (1 :: size_t)) n = [1]"
      using e [of n] by (simp add: nth_append)
    show "\<forall>j. unat (0 :: uint) \<le> j \<and> j < n \<longrightarrow> array_elem ?arr (unat (1 :: size_t)) j \<noteq> [1]"
      using e by (simp add: nth_append)
  qed
  moreover have "word_of_nat n = N" using assms(1) by (simp add: assms(1) [symmetric])
  ultimately show ?thesis by (simp add: bli_array_findindex_def)
qed

text \<open>
  The index does not fit \<open>int\<close> from \<open>2^31\<close> on: in an array of \<open>2^31 + 1\<close> bytes whose
  only element equal to the probe is the last one, at index \<open>2^31\<close>, the result is
  \<open>-2^31\<close>, neither that index nor \<open>-1\<close>.
\<close>

theorem bli_array_findindex_counterexample:
  "array_elem (replicate 2147483648 0 @ [1]) 1 2147483648 = [1] \<and>
   bli_array_findindex (replicate 2147483648 0 @ [1]) 2147483649 1 [1] = Some (- 2147483648)"
proof -
  have "array_elem (replicate 2147483648 0 @ [1 :: byte]) 1 2147483648 =
          [(replicate 2147483648 0 @ [1 :: byte]) ! 2147483648]"
    by (rule array_elem_byte) (simp only: length_append length_replicate, simp)
  then have 1: "array_elem (replicate 2147483648 0 @ [1 :: byte]) 1 2147483648 = [1]"
    by (simp only: nth_append_length [of "replicate 2147483648 (0 :: byte)" 1 "[]", simplified length_replicate])
  have u: "unat (2147483648 :: uint) = 2147483648" by simp
  have r: "bli_array_findindex (replicate 2147483648 0 @ [1]) ((2147483648 :: uint) + 1) 1 [1] =
          Some (sint (2147483648 :: uint))"
    by (rule findindex_beyond_int [OF u]) simp
  have e1: "(2147483648 :: uint) + 1 = 2147483649" by simp
  have e2: "sint (2147483648 :: uint) = - 2147483648" by simp
  have 2: "bli_array_findindex (replicate 2147483648 0 @ [1]) 2147483649 1 [1] =
      Some (- 2147483648)"
    using r unfolding e1 e2 .
  from 1 2 show ?thesis by (rule conjI)
qed

section \<open>Reversing an array\<close>





















text \<open>
  Where the offsets do not fit, the reversal need not have a defined result either: with
  two elements of \<open>2^32 + 1\<close> bytes the truncated stride is 1, and the second \<open>memcpy\<close> of
  the first iteration copies between the overlapping ranges at offsets 1 and 0.
\<close>

lemma bli_array_reverse_overlap:
  assumes "(ucast arr_stride :: uint) = 1" and "1 < unat arr_stride"
  shows "bli_array_reverse arr 2 arr_stride = None"
proof -
  have "memcpy_within arr 0 1 (unat arr_stride) = None"
    using assms(2) by (simp add: memcpy_within_def)
  then have "reverse_loop arr arr_stride 1 1 0 1 = None"
    by (subst reverse_loop.simps) (cases "mem_read arr 0 (unat arr_stride)"; simp)
  then show ?thesis
    using assms(1) by (simp add: bli_array_reverse_def)
qed

theorem bli_array_reverse_overlap_example:
  "bli_array_reverse (replicate 4294967297 0 @ replicate 4294967297 1) 2 4294967297 = None"
proof -
  have 1: "(ucast (4294967297 :: size_t) :: uint) = 1" by simp
  have 2: "1 < unat (4294967297 :: size_t)" by simp
  show ?thesis using 1 2 by (rule bli_array_reverse_overlap)
qed

end
